theory Spec2Isabelle
  imports Complex_Main "HOL-Library.Word"
begin

unbundle bit_operations_syntax

section \<open>Data model of binviz.cpp\<close>

text \<open>
  The C++ types are read as follows. A byte of the file is an \<open>8 word\<close>. The type
  \<open>int\<close> is modelled by \<open>int\<close>: lemma \<open>pack_int32\<close> below shows that every packed key
  stays far inside the 32-bit range, and \<open>loadFile\<close> writes out the narrowing of the file
  size to \<open>int length\<close> and the overflow of the loop test. \<open>float\<close> and \<open>double\<close> are
  modelled by \<open>real\<close> in the positions of the points and in the zoom target, where rounding
  is abstracted away, and with their rounding in the damping step (\<open>advance\<close>). \<open>Point\<close> is the struct of lines 16-25; its fields carry the prefix
  \<open>p_\<close> because \<open>x\<close>, \<open>y\<close>, \<open>z\<close> as constants would capture variable names.
\<close>

type_synonym byte = "8 word"

record Point =
  p_x :: real
  p_y :: real
  p_z :: real
  p_count :: int

text \<open>
  The constructor \<open>Point(float X, float Y, float Z)\<close> assigns \<open>x\<close>, \<open>y\<close> and \<open>z\<close> only.
  The member \<open>count\<close> is left as the allocated memory holds it; that indeterminate value
  is the first argument here.
\<close>

definition Point_ctor :: "int \<Rightarrow> real \<Rightarrow> real \<Rightarrow> real \<Rightarrow> Point" where
  "Point_ctor indeterminate X Y Z =
     \<lparr>p_x = X, p_y = Y, p_z = Z, p_count = indeterminate\<rparr>"

text \<open>The global variables of lines 27-35.\<close>

record globals =
  points :: "Point list"
  winWidth :: int
  winHeight :: int
  lastMouseX :: real
  lastMouseY :: real
  zoomLevel :: real
  zoomTarget :: real
  rotX :: real
  rotY :: real
  targetRotX :: real
  targetRotY :: real
  mouseDown :: bool

text \<open>
  Their values at program start: \<open>zoomLevel\<close> and \<open>zoomTarget\<close> are initialised to 1,
  \<open>mouseDown\<close> to false, everything else is zero-initialised static storage.
\<close>

definition initial_globals :: globals where
  "initial_globals =
     \<lparr>points = [], winWidth = 0, winHeight = 0, lastMouseX = 0, lastMouseY = 0,
      zoomLevel = 1, zoomTarget = 1, rotX = 0, rotY = 0, targetRotX = 0, targetRotY = 0,
      mouseDown = False\<rparr>"

text \<open>Constants of the GLFW header (glfw3.h), which is not part of the repository.\<close>

definition GLFW_RELEASE :: int where "GLFW_RELEASE = 0"
definition GLFW_PRESS :: int where "GLFW_PRESS = 1"

definition PI :: real where
  "PI = 314159265358979323846264 / 100000000000000000000000"

section \<open>Camera callbacks\<close>

text \<open>\<open>mouseButtonCallback\<close>, line 62: the button and the modifiers are not looked at.\<close>

definition mouseButtonCallback :: "int \<Rightarrow> int \<Rightarrow> int \<Rightarrow> globals \<Rightarrow> globals" where
  "mouseButtonCallback button action mod' s = s\<lparr>mouseDown := (action = GLFW_PRESS)\<rparr>"

text \<open>
  \<open>scrollCallback\<close>, lines 65-76. The argument \<open>shiftKey\<close> is what
  \<open>glfwGetKey(wind, GLFW_KEY_LEFT_SHIFT)\<close> returns.
\<close>

definition scrollCallback :: "int \<Rightarrow> real \<Rightarrow> real \<Rightarrow> globals \<Rightarrow> globals" where
  "scrollCallback shiftKey xOffset yOffset s =
     (let s1 = (if shiftKey = GLFW_PRESS
                then s\<lparr>zoomTarget := zoomTarget s + yOffset\<rparr>
                else s\<lparr>zoomTarget := zoomTarget s + yOffset / 25\<rparr>)
      in if zoomTarget s1 < 1 / 10 then s1\<lparr>zoomTarget := 1 / 10\<rparr> else s1)"

text \<open>A sequence of scroll events, each a pair of the shift key state and the y offset.\<close>

fun scrollAll :: "(int \<times> real) list \<Rightarrow> globals \<Rightarrow> globals" where
  "scrollAll [] s = s"
| "scrollAll ((shiftKey, yOffset) # es) s = scrollAll es (scrollCallback shiftKey 0 yOffset s)"

text \<open>
  IEEE 754 binary arithmetic, as far as the damping step needs it. A format has \<open>p\<close>
  significant bits and a smallest exponent \<open>emin\<close>, below which the spacing stays that of the
  subnormal numbers. \<open>rne\<close> rounds to the nearest integer, ties to even; \<open>fp_round\<close> rounds a
  real number to the nearest number of the format, ties to even. There is no largest
  exponent: the model agrees with IEEE 754 wherever no result overflows.
\<close>

definition rne :: "real \<Rightarrow> int" where
  "rne y =
     (let f = \<lfloor>y\<rfloor>; d = y - real_of_int f
      in if d < 1 / 2 then f else if 1 / 2 < d then f + 1 else if even f then f else f + 1)"

definition fp_exponent :: "int \<Rightarrow> real \<Rightarrow> int" where
  "fp_exponent emin x = max emin \<lfloor>log 2 \<bar>x\<bar>\<rfloor>"

definition fp_ulp :: "nat \<Rightarrow> int \<Rightarrow> real \<Rightarrow> real" where
  "fp_ulp p emin x = 2 powr real_of_int (fp_exponent emin x - int p + 1)"

definition fp_round :: "nat \<Rightarrow> int \<Rightarrow> real \<Rightarrow> real" where
  "fp_round p emin x =
     (if x = 0 then 0 else real_of_int (rne (x / fp_ulp p emin x)) * fp_ulp p emin x)"

text \<open>\<open>float\<close> is binary32 and \<open>double\<close> is binary64.\<close>

definition to_float :: "real \<Rightarrow> real" where
  "to_float x = fp_round 24 (- 126) x"




text \<open>The drag state of the specification, read off \<open>mouseDown\<close>.\<close>

datatype drag_state = Idle | Dragging

definition dragState :: "globals \<Rightarrow> drag_state" where
  "dragState s = (if mouseDown s then Dragging else Idle)"

section \<open>Loading a file\<close>

text \<open>
  Whether plain \<open>char\<close> is signed is fixed by the platform (signed on x86 and x86-64,
  unsigned on most ARM Linux targets); it is the parameter \<open>char_signed\<close>. Reading
  \<open>buffer[i]\<close> into an \<open>int\<close> converts the \<open>char\<close> accordingly.
\<close>

definition char_to_int :: "bool \<Rightarrow> byte \<Rightarrow> int" where
  "char_to_int char_signed c = (if char_signed then sint c else uint c)"

text \<open>Lines 96-98, the body of the packing loop.\<close>

definition pack :: "bool \<Rightarrow> byte list \<Rightarrow> nat \<Rightarrow> int" where
  "pack char_signed buffer i =
     (let x0 = char_to_int char_signed (buffer ! (i + 2));
          x1 = push_bit 8 x0 + char_to_int char_signed (buffer ! (i + 1));
          x2 = push_bit 8 x1 + char_to_int char_signed (buffer ! i)
      in x2)"

text \<open>The loop of lines 94-100, writing \<open>sortBuffer[i / 3]\<close>.\<close>

function packLoop :: "bool \<Rightarrow> byte list \<Rightarrow> nat \<Rightarrow> int list \<Rightarrow> int list" where
  "packLoop char_signed buffer i sortBuffer =
     (if i + 2 < length buffer
      then packLoop char_signed buffer (i + 3)
             (sortBuffer[i div 3 := pack char_signed buffer i])
      else sortBuffer)"
  by pat_completeness auto
termination
  by (relation "measure (\<lambda>(c, buffer, i, sb). length buffer - i)") auto

text \<open>Lines 118-120: the three components of a key, normalised.\<close>

definition x_norm :: "int \<Rightarrow> real" where
  "x_norm packed = real_of_int (drop_bit 16 packed AND 255) / 255"

definition y_norm :: "int \<Rightarrow> real" where
  "y_norm packed = real_of_int (drop_bit 8 packed AND 255) / 255"

definition z_norm :: "int \<Rightarrow> real" where
  "z_norm packed = real_of_int (packed AND 255) / 255"

text \<open>Lines 118-134: the point made from a key.\<close>

definition newPoint :: "int \<Rightarrow> int \<Rightarrow> Point" where
  "newPoint indeterminate packed =
     (let xRot = x_norm packed * (2 * PI);
          yRot = y_norm packed * (2 * PI);
          radius = z_norm packed
      in Point_ctor indeterminate
           (radius * sin xRot * cos yRot)
           (radius * sin xRot * sin yRot)
           (radius * cos xRot))"

text \<open>
  \<open>points.back()->count++\<close>. On an empty vector \<open>back()\<close> is undefined; the loop reaches
  it only when \<open>i > 0\<close>, after the point of index 0 was emitted.
\<close>

fun count_back :: "Point list \<Rightarrow> Point list" where
  "count_back [] = []"
| "count_back [p] = [p\<lparr>p_count := p_count p + 1\<rparr>]"
| "count_back (p # ps) = p # count_back ps"

text \<open>
  The loop of lines 107-135. \<open>uninit k\<close> is the indeterminate content of the \<open>count\<close>
  member of the \<open>k\<close>-th \<open>Point\<close> allocated in this call; it may depend on anything that
  happened before, in particular on the points that \<open>points.clear()\<close> has just freed. The
  local counter \<open>duplicate\<close> is never read and is left out.
\<close>

function walkLoop :: "(nat \<Rightarrow> int) \<Rightarrow> int list \<Rightarrow> nat \<Rightarrow> Point list \<Rightarrow> Point list" where
  "walkLoop uninit sortBuffer i pts =
     (if i < length sortBuffer
      then (let packed = sortBuffer ! i
            in if i > 0 \<and> packed = sortBuffer ! (i - 1)
               then walkLoop uninit sortBuffer (i + 1) (count_back pts)
               else walkLoop uninit sortBuffer (i + 1)
                      (pts @ [newPoint (uninit (length pts)) packed]))
      else pts)"
  by pat_completeness auto
termination
  by (relation "measure (\<lambda>(u, sb, i, pts). length sb - i)") auto

text \<open>
  The stream \<open>is\<close> of one call of \<open>loadFile\<close>, as the environment makes it behave. It may
  fail to open. It may open while its size cannot be read or a buffer cannot be allocated:
  for a directory \<open>tellg\<close> yields \<open>-1\<close> and \<open>new char[-1]\<close> throws. Or it opens and delivers
  the bytes of the file.
\<close>

datatype ifstream = CannotOpen | OpenedFails | Contents "byte list"

text \<open>
  How a call ends when it does not return: an exception that nothing catches terminates the
  program, and a signed overflow is undefined behaviour.
\<close>

datatype failure = Uncaught | SignedOverflow

text \<open>
  \<open>int length = is.tellg()\<close>: the 64-bit stream position is narrowed to the 32-bit \<open>int\<close>,
  that is, taken modulo \<open>2 ^ 32\<close> into the range from \<open>- 2 ^ 31\<close> to \<open>2 ^ 31 - 1\<close>.
\<close>

definition narrow :: "int \<Rightarrow> int" where
  "narrow n = (n + 2147483648) mod 4294967296 - 2147483648"

text \<open>
  \<open>loadFile\<close>, lines 78-142. \<open>points.clear()\<close> comes first. With a negative \<open>length\<close> the
  expression \<open>new char[length]\<close> throws. With a \<open>length\<close> of \<open>2 ^ 31 - 2\<close> or \<open>2 ^ 31 - 1\<close> the
  packing loop evaluates its test \<open>i + 2 < length\<close> at \<open>i = 2147483646\<close>, where \<open>i + 2\<close>
  overflows. Otherwise \<open>is.read(buffer, length)\<close> fills the buffer with the first \<open>length\<close>
  bytes. \<open>new int[length / 3]\<close> is modelled as a zero-filled array; lemma \<open>packLoop_eq\<close> shows
  that every cell is overwritten before it is read. \<open>std::sort\<close> on \<open>int\<close> is the ascending
  sort of the library.
\<close>

definition loadFile ::
  "bool \<Rightarrow> (nat \<Rightarrow> int) \<Rightarrow> ifstream \<Rightarrow> globals \<Rightarrow> failure + int \<times> globals" where
  "loadFile char_signed uninit file s =
     (let s1 = s\<lparr>points := []\<rparr>
      in case file of
           CannotOpen \<Rightarrow> Inr (0, s1)
         | OpenedFails \<Rightarrow> Inl Uncaught
         | Contents bytes \<Rightarrow>
             (let len = narrow (int (length bytes))
              in if len < 0 then Inl Uncaught
                 else if 2147483646 \<le> len then Inl SignedOverflow
                 else
                   (let buffer = take (nat len) bytes;
                        sortBuffer =
                          packLoop char_signed buffer 0 (replicate (nat (len div 3)) 0);
                        len3 = len div 3;
                        sorted = sort sortBuffer
                    in Inr (len3, s1\<lparr>points := walkLoop uninit sorted 0 (points s1)\<rparr>))))"

text \<open>The key of the specification: \<open>(b2 << 16) | (b1 << 8) | b0\<close> on byte values.\<close>

definition spec_key :: "byte \<Rightarrow> byte \<Rightarrow> byte \<Rightarrow> int" where
  "spec_key b0 b1 b2 = push_bit 16 (uint b2) OR push_bit 8 (uint b1) OR uint b0"


section \<open>Auxiliary definitions for the proofs\<close>

text \<open>
  The walk of lines 107-135 as a recursion over the remaining keys: \<open>prev\<close> is the key
  before the current one, \<open>None\<close> at index 0. Lemma \<open>walkLoop_walkList\<close> shows that
  \<open>walkLoop\<close> computes it.
\<close>

fun walkList :: "(nat \<Rightarrow> int) \<Rightarrow> int option \<Rightarrow> int list \<Rightarrow> Point list \<Rightarrow> Point list" where
  "walkList u prev [] pts = pts"
| "walkList u prev (k # ks) pts =
     (if prev = Some k then walkList u (Some k) ks (count_back pts)
      else walkList u (Some k) ks (pts @ [newPoint (u (length pts)) k]))"

text \<open>The keys at which the walk emits a point.\<close>

fun newKeys :: "int option \<Rightarrow> int list \<Rightarrow> int list" where
  "newKeys prev [] = []"
| "newKeys prev (k # ks) =
     (if prev = Some k then newKeys (Some k) ks else k # newKeys (Some k) ks)"

definition position :: "Point \<Rightarrow> real \<times> real \<times> real" where
  "position p = (p_x p, p_y p, p_z p)"

text \<open>The content of \<open>sortBuffer\<close> after the packing loop, in closed form.\<close>

definition packedKeys :: "bool \<Rightarrow> byte list \<Rightarrow> int list" where
  "packedKeys cs buffer = map (\<lambda>k. pack cs buffer (3 * k)) [0..<length buffer div 3]"

text \<open>
  The points that the walk leaves for the bytes of a buffer; lemma \<open>loadFile_Contents\<close>
  shows that \<open>loadFile\<close> stores them.
\<close>

definition builtPoints :: "bool \<Rightarrow> (nat \<Rightarrow> int) \<Rightarrow> byte list \<Rightarrow> Point list" where
  "builtPoints cs u buffer = walkList u None (sort (packedKeys cs buffer)) []"

text \<open>Two contents of freshly allocated memory: all zero, and a stale value.\<close>

definition zeroed :: "nat \<Rightarrow> int" where "zeroed k = 0"

definition stale :: "nat \<Rightarrow> int" where "stale k = 7"

text \<open>\<open>r\<close> is an integer multiple of \<open>u\<close>.\<close>

definition on_grid :: "real \<Rightarrow> real \<Rightarrow> bool" where
  "on_grid u r \<longleftrightarrow> (\<exists>k :: int. r = real_of_int k * u)"



text \<open>
  The counts of the points \<open>pts\<close> emitted for the sorted keys \<open>ds\<close>: one point per distinct
  key, in order, its count being the initial content of the member plus the number of
  occurrences of the key beyond the first.
\<close>

definition counted :: "(nat \<Rightarrow> int) \<Rightarrow> int list \<Rightarrow> Point list \<Rightarrow> bool" where
  "counted u ds pts \<longleftrightarrow>
     length pts = length (remdups_adj ds) \<and>
     (\<forall>n < length pts.
        p_count (pts ! n) = u n + int (count_list ds (remdups_adj ds ! n)) - 1)"

declare packLoop.simps [simp del] walkLoop.simps [simp del]

section \<open>The packing loop\<close>

lemma pack_eq:
  "pack cs buffer i =
     65536 * char_to_int cs (buffer ! (i + 2)) + 256 * char_to_int cs (buffer ! (i + 1))
       + char_to_int cs (buffer ! i)"
  by (simp add: pack_def push_bit_eq_mult)

lemma char_to_int_range: "- 128 \<le> char_to_int cs c \<and> char_to_int cs c \<le> 255"
proof (cases cs)
  case True
  have "- (2 ^ (LENGTH(8) - 1)) \<le> sint c" by (rule sint_ge)
  moreover have "sint c < 2 ^ (LENGTH(8) - 1)" by (rule sint_lt)
  ultimately show ?thesis using True by (simp add: char_to_int_def)
next
  case False
  have "uint c < 2 ^ LENGTH(8)" by (rule uint_bounded)
  moreover have "- 128 \<le> uint c" using uint_ge_0 [of c] by linarith
  ultimately show ?thesis using False by (simp add: char_to_int_def)
qed

lemma pack_int32: "- (2 ^ 31) \<le> pack cs buffer i \<and> pack cs buffer i < 2 ^ 31"
  using char_to_int_range [of cs "buffer ! (i + 2)"]
    char_to_int_range [of cs "buffer ! (i + 1)"] char_to_int_range [of cs "buffer ! i"]
  by (simp add: pack_eq)

lemma packLoop_from:
  "length sb = length buffer div 3 \<Longrightarrow> j \<le> length buffer div 3 \<Longrightarrow>
   packLoop cs buffer (3 * j) sb =
     take j sb @ map (\<lambda>k. pack cs buffer (3 * k)) [j..<length buffer div 3]"
proof (induction "length buffer div 3 - j" arbitrary: j sb)
  case 0
  then have j: "j = length buffer div 3" by simp
  then have "\<not> 3 * j + 2 < length buffer" by presburger
  then show ?case using 0 j by (simp add: packLoop.simps)
next
  case (Suc n)
  then have lt: "j < length buffer div 3" by simp
  then have c: "3 * j + 2 < length buffer" by presburger
  have d: "(3 * j) div 3 = j" by simp
  have "packLoop cs buffer (3 * j) sb = packLoop cs buffer (3 * Suc j) (sb[j := pack cs buffer (3 * j)])"
    using c d by (subst packLoop.simps) (simp add: add.commute)
  also have "\<dots> = take (Suc j) (sb[j := pack cs buffer (3 * j)]) @ map (\<lambda>k. pack cs buffer (3 * k)) [Suc j..<length buffer div 3]"
    using Suc lt by (intro Suc.hyps(1)) auto
  also have "take (Suc j) (sb[j := pack cs buffer (3 * j)]) = take j sb @ [pack cs buffer (3 * j)]"
    using lt Suc.prems(1) by (simp add: take_Suc_conv_app_nth)
  finally show ?case using lt by (simp add: upt_conv_Cons)
qed

lemma packLoop_eq:
  "length sb = length buffer div 3 \<Longrightarrow>
   packLoop cs buffer 0 sb = map (\<lambda>k. pack cs buffer (3 * k)) [0..<length buffer div 3]"
  using packLoop_from [of sb buffer 0 cs] by simp

lemma byte_mask: "(255::int) = mask 8"
  by (simp add: mask_eq_exp_minus_1)

lemma and_255: "(k::int) AND 255 = k mod 256"
  by (simp add: byte_mask take_bit_eq_mod flip: take_bit_eq_mask)

lemma unpack_sum:
  assumes "0 \<le> a" "a < 256" "0 \<le> b" "b < 256" "0 \<le> c" "c < 256"
  shows "drop_bit 16 (65536 * c + 256 * b + a) AND 255 = (c::int)"
    and "drop_bit 8 (65536 * c + 256 * b + a) AND 255 = b"
    and "(65536 * c + 256 * b + a) AND 255 = a"
proof -
  let ?k = "65536 * c + 256 * b + a"
  have r: "0 \<le> 256 * b + a" "256 * b + a < 65536" using assms by simp_all
  have k1: "?k = (256 * b + a) + 65536 * c" by simp
  have "?k div 65536 = c + (256 * b + a) div 65536"
    unfolding k1 by (rule div_mult_self2) simp
  then have d16: "?k div 65536 = c" using r by (simp add: div_pos_pos_trivial)
  have k2: "?k = a + 256 * (256 * c + b)" by simp
  have "?k div 256 = (256 * c + b) + a div 256"
    unfolding k2 by (rule div_mult_self2) simp
  then have d8: "?k div 256 = 256 * c + b" using assms by (simp add: div_pos_pos_trivial)
  have "(256 * c + b) mod 256 = b mod 256"
    using mod_mult_self2 [of b 256 c] by (simp add: add.commute)
  then have m8: "(256 * c + b) mod 256 = b" using assms by (simp add: mod_pos_pos_trivial)
  have "?k mod 256 = a mod 256"
    unfolding k2 by (rule mod_mult_self2)
  then have m0: "?k mod 256 = a" using assms by (simp add: mod_pos_pos_trivial)
  show "drop_bit 16 ?k AND 255 = c"
    unfolding and_255 drop_bit_eq_div using d16 assms by (simp add: mod_pos_pos_trivial)
  show "drop_bit 8 ?k AND 255 = b"
    unfolding and_255 drop_bit_eq_div using d8 m8 by simp
  show "?k AND 255 = a"
    unfolding and_255 using m0 by simp
qed

lemma uint_byte_bit: "bit (uint (w::byte)) n \<Longrightarrow> n < 8"
  by (auto simp: bit_uint_iff dest: bit_imp_le_length)

lemma spec_key_sum: "spec_key b0 b1 b2 = 65536 * uint b2 + 256 * uint b1 + uint b0"
proof -
  have "push_bit 8 (uint b1) AND uint b0 = 0"
    by (rule bit_eqI) (auto simp: bit_and_iff bit_push_bit_iff dest: uint_byte_bit)
  then have a: "push_bit 8 (uint b1) + uint b0 = push_bit 8 (uint b1) OR uint b0"
    by (rule disjunctive_add_eq_or)
  have "push_bit 16 (uint b2) AND (push_bit 8 (uint b1) OR uint b0) = 0"
    by (rule bit_eqI) (auto simp: bit_and_iff bit_or_iff bit_push_bit_iff dest: uint_byte_bit)
  then have b: "push_bit 16 (uint b2) + (push_bit 8 (uint b1) OR uint b0) =
           push_bit 16 (uint b2) OR (push_bit 8 (uint b1) OR uint b0)"
    by (rule disjunctive_add_eq_or)
  have "spec_key b0 b1 b2 = push_bit 16 (uint b2) + (push_bit 8 (uint b1) + uint b0)"
    unfolding spec_key_def a b ..
  then show ?thesis by (simp add: push_bit_eq_mult)
qed

section \<open>The walk over the sorted keys\<close>

lemma walkLoop_walkList:
  "i \<le> length sb \<Longrightarrow>
   walkLoop u sb i pts =
     walkList u (if i = 0 then None else Some (sb ! (i - 1))) (drop i sb) pts"
proof (induction u sb i pts rule: walkLoop.induct)
  case (1 u sb i pts)
  show ?case
  proof (cases "i < length sb")
    case False
    with 1(3) show ?thesis by (simp add: walkLoop.simps)
  next
    case True
    then have d: "drop i sb = sb ! i # drop (Suc i) sb"
      by (simp add: Cons_nth_drop_Suc)
    show ?thesis
    proof (cases "i > 0 \<and> sb ! i = sb ! (i - 1)")
      case dup: True
      have "walkLoop u sb i pts = walkLoop u sb (i + 1) (count_back pts)"
        using True dup by (subst walkLoop.simps) simp
      also have "\<dots> = walkList u (Some (sb ! i)) (drop (Suc i) sb) (count_back pts)"
        using 1(1) [OF True refl] dup True by simp
      finally show ?thesis using dup d by auto
    next
      case new: False
      have "walkLoop u sb i pts =
              walkLoop u sb (i + 1) (pts @ [newPoint (u (length pts)) (sb ! i)])"
        using True new by (subst walkLoop.simps) auto
      also have "\<dots> = walkList u (Some (sb ! i)) (drop (Suc i) sb)
                          (pts @ [newPoint (u (length pts)) (sb ! i)])"
        using 1(2) [OF True refl] new True by simp
      finally show ?thesis using new d by auto
    qed
  qed
qed

lemma walkLoop_start: "walkLoop u sb 0 [] = walkList u None sb []"
  using walkLoop_walkList [of 0 sb u "[]"] by simp

lemma length_count_back: "length (count_back pts) = length pts"
  by (induction pts rule: count_back.induct) auto

lemma position_count_back: "map position (count_back pts) = map position pts"
  by (induction pts rule: count_back.induct) (auto simp: position_def)

lemma sum_count_back:
  "pts \<noteq> [] \<Longrightarrow> sum_list (map p_count (count_back pts)) = sum_list (map p_count pts) + 1"
  by (induction pts rule: count_back.induct) auto

lemma position_newPoint: "position (newPoint j k) = position (newPoint 0 k)"
  by (simp add: position_def newPoint_def Point_ctor_def Let_def)

lemma newKeys_Some: "newKeys (Some p) ks = tl (remdups_adj (p # ks))"
  by (induction ks arbitrary: p) auto

lemma newKeys_None: "newKeys None ks = remdups_adj ks"
  by (cases ks) (simp_all add: newKeys_Some)

lemma walkList_position:
  "map position (walkList u prev ks pts) =
     map position pts @ map (\<lambda>k. position (newPoint 0 k)) (newKeys prev ks)"
proof (induction ks arbitrary: prev pts)
  case Nil
  show ?case by simp
next
  case (Cons k ks)
  show ?case
    using position_newPoint [of "u (length pts)" k]
    by (simp add: Cons.IH position_count_back)
qed

lemma walkList_length:
  "length (walkList u prev ks pts) = length pts + length (newKeys prev ks)"
  using arg_cong [OF walkList_position [of u prev ks pts], of length] by simp

lemma walkList_count_sum:
  "(prev \<noteq> None \<longrightarrow> pts \<noteq> []) \<Longrightarrow>
   sum_list (map p_count (walkList u prev ks pts)) + int (length (walkList u prev ks pts)) =
     sum_list (map p_count pts) + int (length pts) + int (length ks)
       + (\<Sum>n = length pts..<length (walkList u prev ks pts). u n)"
proof (induction ks arbitrary: prev pts)
  case Nil
  show ?case by simp
next
  case (Cons k ks)
  show ?case
  proof (cases "prev = Some k")
    case True
    with Cons.prems have ne: "pts \<noteq> []" by simp
    then have ne': "count_back pts \<noteq> []" using length_count_back [of pts] by auto
    show ?thesis
      using Cons.IH [of "Some k" "count_back pts"] True ne ne'
      by (simp add: sum_count_back length_count_back)
  next
    case False
    let ?pts = "pts @ [newPoint (u (length pts)) k]"
    have le: "Suc (length pts) \<le> length (walkList u (Some k) ks ?pts)"
      by (simp add: walkList_length)
    have "(\<Sum>n = length pts..<length (walkList u (Some k) ks ?pts). u n) =
            u (length pts) + (\<Sum>n = Suc (length pts)..<length (walkList u (Some k) ks ?pts). u n)"
      using le by (simp add: sum.atLeast_Suc_lessThan)
    moreover have "p_count (newPoint (u (length pts)) k) = u (length pts)"
      by (simp add: newPoint_def Point_ctor_def Let_def)
    ultimately show ?thesis
      using Cons.IH [of "Some k" ?pts] False by simp
  qed
qed

section \<open>Points on the sphere\<close>

lemma sphere_identity:
  "(r * sa * cb)\<^sup>2 + (r * sa * sb)\<^sup>2 + (r * ca)\<^sup>2 =
     r\<^sup>2 * (sa\<^sup>2 * (cb\<^sup>2 + sb\<^sup>2) + ca\<^sup>2)" for r :: real
  by (simp add: power_mult_distrib algebra_simps)

lemma newPoint_fields:
  "p_x (newPoint j k) = z_norm k * sin (x_norm k * (2 * PI)) * cos (y_norm k * (2 * PI))"
  "p_y (newPoint j k) = z_norm k * sin (x_norm k * (2 * PI)) * sin (y_norm k * (2 * PI))"
  "p_z (newPoint j k) = z_norm k * cos (x_norm k * (2 * PI))"
  "p_count (newPoint j k) = j"
  by (simp_all add: newPoint_def Point_ctor_def Let_def)

lemma newPoint_norm:
  "(p_x (newPoint j k))\<^sup>2 + (p_y (newPoint j k))\<^sup>2 + (p_z (newPoint j k))\<^sup>2 = (z_norm k)\<^sup>2"
proof -
  have t: "(sin a)\<^sup>2 * ((cos b)\<^sup>2 + (sin b)\<^sup>2) + (cos a)\<^sup>2 = 1" for a b :: real
    by simp
  show ?thesis
    unfolding newPoint_fields sphere_identity t by simp
qed

lemma z_norm_range: "0 \<le> z_norm k \<and> z_norm k \<le> 1"
proof -
  have "0 \<le> k mod 256" "k mod 256 < 256" by simp_all
  then have "0 \<le> real_of_int (k mod 256)" "real_of_int (k mod 256) \<le> 255"
    by linarith+
  then show ?thesis by (simp add: z_norm_def and_255)
qed

lemma newPoint_norm_le: "(p_x (newPoint j k))\<^sup>2 + (p_y (newPoint j k))\<^sup>2 + (p_z (newPoint j k))\<^sup>2 \<le> 1"
proof -
  have "(z_norm k)\<^sup>2 \<le> 1\<^sup>2"
    using z_norm_range [of k] by (intro power_mono) simp_all
  then show ?thesis unfolding newPoint_norm by simp
qed

section \<open>Results of loadFile\<close>

lemma narrow_small: "0 \<le> n \<Longrightarrow> n < 2147483648 \<Longrightarrow> narrow n = n"
  by (simp add: narrow_def)

lemma loadFile_Contents:
  assumes "length bytes < 2147483646"
  shows "loadFile cs u (Contents bytes) s =
           Inr (int (length bytes div 3), s\<lparr>points := builtPoints cs u bytes\<rparr>)"
proof -
  have n: "narrow (int (length bytes)) = int (length bytes)"
    using assms by (intro narrow_small) simp_all
  have d: "nat (int (length bytes) div 3) = length bytes div 3"
    by (simp add: nat_div_distrib)
  have "packLoop cs bytes 0 (replicate (length bytes div 3) 0) = packedKeys cs bytes"
    unfolding packedKeys_def by (rule packLoop_eq) simp
  then show ?thesis
    using assms
    by (simp add: loadFile_def Let_def n d walkLoop_start builtPoints_def zdiv_int)
qed

lemma loadFile_CannotOpen: "loadFile cs u CannotOpen s = Inr (0, s\<lparr>points := []\<rparr>)"
  by (simp add: loadFile_def)

lemma loadFile_OpenedFails: "loadFile cs u OpenedFails s = Inl Uncaught"
  by (simp add: loadFile_def)


lemma packedKeys_append:
  assumes "length bytes mod 3 = 0" "length extra < 3"
  shows "packedKeys cs (bytes @ extra) = packedKeys cs bytes"
proof -
  have d: "(length bytes + length extra) div 3 = length bytes div 3"
    using assms by presburger
  have "pack cs (bytes @ extra) (3 * k) = pack cs bytes (3 * k)"
    if "k < length bytes div 3" for k
  proof -
    have "3 * k + 2 < length bytes" using that by presburger
    then show ?thesis by (simp add: pack_def nth_append)
  qed
  then show ?thesis by (simp add: packedKeys_def d)
qed


section \<open>Zoom\<close>

lemma scrollCallback_zoomTarget:
  "zoomTarget (scrollCallback shiftKey xOffset yOffset s) =
     max (zoomTarget s + (if shiftKey = GLFW_PRESS then yOffset else yOffset / 25)) (1 / 10)"
  by (simp add: scrollCallback_def Let_def max_def)

lemma scrollAll_floor: "1 / 10 \<le> zoomTarget s \<Longrightarrow> 1 / 10 \<le> zoomTarget (scrollAll es s)"
proof (induction es arbitrary: s)
  case Nil
  then show ?case by simp
next
  case (Cons e es)
  obtain k d where e: "e = (k, d)" by (cases e)
  have "1 / 10 \<le> zoomTarget (scrollCallback k 0 d s)"
    by (simp add: scrollCallback_zoomTarget)
  then show ?case using Cons.IH e by simp
qed

section \<open>Evaluation at concrete inputs\<close>

lemma newPoint_zero: "newPoint j 0 = Point_ctor j 0 0 0"
  by (simp add: newPoint_def x_norm_def y_norm_def z_norm_def)

lemma keys_ff_signed: "packedKeys True [255, 0, 0] = [- 1]"
  by (simp add: packedKeys_def pack_eq char_to_int_def)

lemma keys_scenario_signed: "packedKeys True [0, 0, 0, 0, 0, 0, 255, 255, 255] = [0, 0, - 65793]"
  by (simp add: packedKeys_def pack_eq char_to_int_def upt_rec)

lemma keys_scenario_unsigned:
  "packedKeys False [0, 0, 0, 0, 0, 0, 255, 255, 255] = [0, 0, 16777215]"
  by (simp add: packedKeys_def pack_eq char_to_int_def upt_rec)

lemma builtPoints_zero_triplet: "builtPoints cs u [0, 0, 0] = [Point_ctor (u 0) 0 0 0]"
  by (simp add: builtPoints_def packedKeys_def pack_eq char_to_int_def newPoint_zero)

section \<open>What holds of the keys on every platform\<close>

lemma pack_unsigned:
  "pack False buffer i = spec_key (buffer ! i) (buffer ! (i + 1)) (buffer ! (i + 2))"
  by (simp add: pack_eq spec_key_sum char_to_int_def)

lemma uint_byte_range: "0 \<le> uint (w::byte) \<and> uint w < 256"
  using uint_bounded [of w] by simp

lemma sint_byte_range: "0 \<le> sint (w::byte) + 128 \<and> sint w + 128 < 256"
  using sint_ge [of w] sint_lt [of w] by simp

lemma key_digits_inj:
  fixes a0 a1 a2 b0 b1 b2 :: int
  assumes a: "0 \<le> a0" "a0 < 256" "0 \<le> a1" "a1 < 256" "0 \<le> a2" "a2 < 256"
    and b: "0 \<le> b0" "b0 < 256" "0 \<le> b1" "b1 < 256" "0 \<le> b2" "b2 < 256"
    and e: "65536 * a2 + 256 * a1 + a0 = 65536 * b2 + 256 * b1 + b0"
  shows "a0 = b0 \<and> a1 = b1 \<and> a2 = b2"
proof -
  have "a2 = drop_bit 16 (65536 * a2 + 256 * a1 + a0) AND 255"
    using a by (rule unpack_sum(1) [symmetric])
  also have "\<dots> = drop_bit 16 (65536 * b2 + 256 * b1 + b0) AND 255"
    by (simp only: e)
  also have "\<dots> = b2" using b by (rule unpack_sum(1))
  finally have e2: "a2 = b2" .
  have "a1 = drop_bit 8 (65536 * a2 + 256 * a1 + a0) AND 255"
    using a by (rule unpack_sum(2) [symmetric])
  also have "\<dots> = drop_bit 8 (65536 * b2 + 256 * b1 + b0) AND 255"
    by (simp only: e)
  also have "\<dots> = b1" using b by (rule unpack_sum(2))
  finally have e1: "a1 = b1" .
  show ?thesis using e e1 e2 by simp
qed

lemma pack_inj:
  assumes "pack cs [a0, a1, a2] 0 = pack cs [b0, b1, b2] 0"
  shows "a0 = b0 \<and> a1 = b1 \<and> a2 = b2"
proof (cases cs)
  case False
  have e: "65536 * uint a2 + 256 * uint a1 + uint a0 = 65536 * uint b2 + 256 * uint b1 + uint b0"
    using assms False by (simp add: pack_eq char_to_int_def)
  have "uint a0 = uint b0 \<and> uint a1 = uint b1 \<and> uint a2 = uint b2"
    using uint_byte_range [of a0] uint_byte_range [of a1] uint_byte_range [of a2]
      uint_byte_range [of b0] uint_byte_range [of b1] uint_byte_range [of b2] e
    by (intro key_digits_inj) simp_all
  then show ?thesis by (auto intro: unsigned_word_eqI)
next
  case True
  have "65536 * sint a2 + 256 * sint a1 + sint a0 = 65536 * sint b2 + 256 * sint b1 + sint b0"
    using assms True by (simp add: pack_eq char_to_int_def)
  then have e: "65536 * (sint a2 + 128) + 256 * (sint a1 + 128) + (sint a0 + 128) =
                65536 * (sint b2 + 128) + 256 * (sint b1 + 128) + (sint b0 + 128)"
    by simp
  have "sint a0 + 128 = sint b0 + 128 \<and> sint a1 + 128 = sint b1 + 128 \<and>
        sint a2 + 128 = sint b2 + 128"
    using sint_byte_range [of a0] sint_byte_range [of a1] sint_byte_range [of a2]
      sint_byte_range [of b0] sint_byte_range [of b1] sint_byte_range [of b2] e
    by (intro key_digits_inj) simp_all
  then show ?thesis by (auto intro: signed_word_eqI)
qed

lemma strict_remdups_adj: "sorted xs \<Longrightarrow> sorted_wrt (<) (remdups_adj xs)"
  for xs :: "int list"
  by (induction xs rule: remdups_adj.induct) (auto simp: less_le)

lemma emitted_keys_strict: "sorted_wrt (<) (remdups_adj (sort ks))" for ks :: "int list"
  by (rule strict_remdups_adj) simp

lemma builtPoints_position:
  "map position (builtPoints cs u buffer) =
     map (\<lambda>k. position (newPoint 0 k)) (remdups_adj (sort (packedKeys cs buffer)))"
  by (simp add: builtPoints_def walkList_position newKeys_None)

lemma builtPoints_count_sum:
  "sum_list (map p_count (builtPoints cs u buffer)) + int (length (builtPoints cs u buffer)) =
   int (length buffer div 3) + (\<Sum>n = 0..<length (builtPoints cs u buffer). u n)"
  using walkList_count_sum [of None "[]" u "sort (packedKeys cs buffer)"]
  by (simp add: builtPoints_def packedKeys_def)

section \<open>Counts of the emitted points\<close>

lemma count_back_nth:
  "n < length pts \<Longrightarrow>
   p_count (count_back pts ! n) = p_count (pts ! n) + (if Suc n = length pts then 1 else 0)"
proof (induction pts arbitrary: n rule: count_back.induct)
  case 1
  then show ?case by simp
next
  case (2 p)
  then show ?case by simp
next
  case (3 p q ps)
  then show ?case by (cases n) auto
qed

lemma remdups_adj_snoc:
  "remdups_adj (ds @ [k]) = (if ds \<noteq> [] \<and> last ds = k then remdups_adj ds else remdups_adj ds @ [k])"
proof (cases ds rule: rev_cases)
  case Nil
  then show ?thesis by simp
next
  case (snoc ds' d)
  then show ?thesis by (simp add: remdups_adj_append_two)
qed

lemma sorted_snoc_fresh:
  fixes k :: int
  assumes "sorted (ds @ [k])" "ds = [] \<or> last ds \<noteq> k"
  shows "k \<notin> set ds"
proof (cases ds rule: rev_cases)
  case Nil
  then show ?thesis by simp
next
  case (snoc bs l)
  have lk: "l \<noteq> k" using assms(2) snoc by simp
  have "l \<le> k" using assms(1) snoc by (simp add: sorted_append)
  then have "l < k" using lk by simp
  moreover have "\<forall>x \<in> set bs. x \<le> l" using assms(1) snoc by (simp add: sorted_append)
  ultimately show ?thesis using snoc by auto
qed

lemma counted_dup:
  assumes c: "counted u ds pts" and s: "sorted (ds @ [k])" and ne: "ds \<noteq> []" and l: "last ds = k"
  shows "counted u (ds @ [k]) (count_back pts)"
proof -
  have r: "remdups_adj (ds @ [k]) = remdups_adj ds" using ne l by (simp add: remdups_adj_snoc)
  have len: "length pts = length (remdups_adj ds)" using c by (simp add: counted_def)
  have sd: "sorted ds" using s by (simp add: sorted_append)
  have dist: "distinct (remdups_adj ds)"
    using strict_remdups_adj [OF sd] by (simp add: strict_sorted_iff)
  have lastk: "last (remdups_adj ds) = k" using l by simp
  have rne: "remdups_adj ds \<noteq> []" using ne by simp
  have key: "remdups_adj ds ! n = k \<longleftrightarrow> Suc n = length pts" if "n < length pts" for n
  proof -
    have "last (remdups_adj ds) = remdups_adj ds ! (length (remdups_adj ds) - 1)"
      using rne by (rule last_conv_nth)
    then have a: "remdups_adj ds ! (length pts - 1) = k"
      using lastk len by (simp only:)
    have b: "length pts - 1 < length (remdups_adj ds)" using that len by simp
    have c: "n < length (remdups_adj ds)" using that len by simp
    have "remdups_adj ds ! n = remdups_adj ds ! (length pts - 1) \<longleftrightarrow> n = length pts - 1"
      using dist c b by (rule nth_eq_iff_index_eq)
    then show ?thesis using that a by auto
  qed
  show ?thesis
    unfolding counted_def r
  proof (intro conjI allI impI)
    show "length (count_back pts) = length (remdups_adj ds)"
      using len by (simp add: length_count_back)
  next
    fix n
    assume "n < length (count_back pts)"
    then have n: "n < length pts" by (simp add: length_count_back)
    have "p_count (pts ! n) = u n + int (count_list ds (remdups_adj ds ! n)) - 1"
      using c n by (simp add: counted_def)
    then show "p_count (count_back pts ! n) =
        u n + int (count_list (ds @ [k]) (remdups_adj ds ! n)) - 1"
      using key [OF n] n by (auto simp: count_back_nth)
  qed
qed

lemma counted_new:
  assumes c: "counted u ds pts" and s: "sorted (ds @ [k])" and f: "ds = [] \<or> last ds \<noteq> k"
  shows "counted u (ds @ [k]) (pts @ [newPoint (u (length pts)) k])"
proof -
  have r: "remdups_adj (ds @ [k]) = remdups_adj ds @ [k]" using f by (auto simp: remdups_adj_snoc)
  have len: "length pts = length (remdups_adj ds)" using c by (simp add: counted_def)
  have fresh: "k \<notin> set ds" using s f by (rule sorted_snoc_fresh)
  show ?thesis
    unfolding counted_def r
  proof (intro conjI allI impI)
    show "length (pts @ [newPoint (u (length pts)) k]) = length (remdups_adj ds @ [k])"
      using len by simp
  next
    fix n
    assume "n < length (pts @ [newPoint (u (length pts)) k])"
    then consider "n < length pts" | "n = length pts" by fastforce
    then show "p_count ((pts @ [newPoint (u (length pts)) k]) ! n) =
        u n + int (count_list (ds @ [k]) ((remdups_adj ds @ [k]) ! n)) - 1"
    proof cases
      case 1
      then have "remdups_adj ds ! n \<in> set (remdups_adj ds)"
        using len by (intro nth_mem) simp
      then have "remdups_adj ds ! n \<in> set ds" by simp
      then have "remdups_adj ds ! n \<noteq> k" using fresh by auto
      then show ?thesis
        using 1 c len by (simp add: counted_def nth_append)
    next
      case 2
      then show ?thesis
        using len fresh by (simp add: nth_append newPoint_fields)
    qed
  qed
qed

lemma walkList_counted:
  assumes "counted u ds pts" "sorted (ds @ ks)"
    "prev = (if ds = [] then None else Some (last ds))"
  shows "counted u (ds @ ks) (walkList u prev ks pts)"
  using assms
proof (induction ks arbitrary: ds pts prev)
  case Nil
  then show ?case by simp
next
  case (Cons k ks)
  have s1: "sorted (ds @ [k])" using Cons.prems(2) by (simp add: sorted_append)
  have s2: "sorted ((ds @ [k]) @ ks)" using Cons.prems(2) by simp
  have p: "Some k = (if ds @ [k] = [] then None else Some (last (ds @ [k])))" by simp
  show ?case
  proof (cases "prev = Some k")
    case True
    then have "ds \<noteq> []" "last ds = k" using Cons.prems(3) by (auto split: if_splits)
    then have "counted u (ds @ [k]) (count_back pts)"
      using Cons.prems(1) s1 by (intro counted_dup)
    from Cons.IH [OF this s2 p] show ?thesis using True by simp
  next
    case False
    then have "ds = [] \<or> last ds \<noteq> k" using Cons.prems(3) by (auto split: if_splits)
    then have "counted u (ds @ [k]) (pts @ [newPoint (u (length pts)) k])"
      using Cons.prems(1) s1 by (intro counted_new)
    from Cons.IH [OF this s2 p] show ?thesis using False by simp
  qed
qed

lemma builtPoints_counted: "counted u (sort (packedKeys cs buffer)) (builtPoints cs u buffer)"
proof -
  have "counted u [] []" by (simp add: counted_def)
  from walkList_counted [OF this, of "sort (packedKeys cs buffer)" None]
  show ?thesis by (simp add: builtPoints_def)
qed

lemma builtPoints_zeroed_sum:
  "sum_list (map p_count (builtPoints cs zeroed buffer)) +
     int (length (builtPoints cs zeroed buffer)) = int (length buffer div 3)"
  using builtPoints_count_sum [of cs zeroed buffer] by (simp add: zeroed_def)

section \<open>Rounding to nearest and the damping step\<close>



lemma rne_of_int: "rne (real_of_int k) = k"
  by (simp add: rne_def)


lemma ulp_pos: "0 < fp_ulp p emin x"
  by (simp add: fp_ulp_def)

lemma fp_round_0: "fp_round p emin 0 = 0"
  by (simp add: fp_round_def)




lemma floor_log_eq:
  assumes "2 powr real_of_int k \<le> \<bar>x\<bar>" "\<bar>x\<bar> < 2 powr (real_of_int k + 1)"
  shows "\<lfloor>log 2 \<bar>x\<bar>\<rfloor> = k"
proof -
  have p: "0 < \<bar>x\<bar>" using assms(1) powr_gt_zero [of 2 "real_of_int k"] by linarith
  have "real_of_int k \<le> log 2 \<bar>x\<bar>" using assms(1) p by (simp add: le_log_iff)
  moreover have "log 2 \<bar>x\<bar> < real_of_int k + 1" using assms(2) p by (simp add: log_less_iff)
  ultimately show ?thesis by linarith
qed






lemma on_grid_fixed:
  assumes "on_grid (fp_ulp p emin x) x"
  shows "fp_round p emin x = x"
proof (cases "x = 0")
  case True
  then show ?thesis by (simp add: fp_round_0)
next
  case False
  from assms obtain k :: int where k: "x = real_of_int k * fp_ulp p emin x"
    unfolding on_grid_def by blast
  have "x / fp_ulp p emin x = real_of_int k"
    using k ulp_pos [of p emin x] by (metis nonzero_eq_divide_eq less_numeral_extra(3))
  then show ?thesis using False k by (simp add: fp_round_def rne_of_int)
qed


























lemma round_exponent:
  assumes "2 powr real_of_int k \<le> \<bar>x\<bar>" "\<bar>x\<bar> < 2 powr (real_of_int k + 1)" "emin \<le> k"
  shows "fp_exponent emin x = k"
  using floor_log_eq [OF assms(1,2)] assms(3) by (simp add: fp_exponent_def)

lemma round_exact:
  assumes "2 powr real_of_int k \<le> \<bar>x\<bar>" "\<bar>x\<bar> < 2 powr (real_of_int k + 1)" "emin \<le> k"
    and "x = real_of_int n * 2 powr real_of_int (k - int p + 1)"
  shows "fp_round p emin x = x"
proof -
  have "fp_ulp p emin x = 2 powr real_of_int (k - int p + 1)"
    by (simp only: fp_ulp_def round_exponent [OF assms(1-3)])
  then have "on_grid (fp_ulp p emin x) x"
    unfolding on_grid_def using assms(4) by auto
  then show ?thesis by (rule on_grid_fixed)
qed





lemma float_stall: "to_float (25599 / 256) = 25599 / 256"
  unfolding to_float_def
  by (rule round_exact [where k = 6 and n = 13106688]) (simp_all add: powr_minus_divide)
































section \<open>Further evaluations\<close>

lemma keys_two_triplets: "packedKeys True [1, 2, 3, 1, 2, 3, 4, 5, 6] = [197121, 197121, 394500]"
  by (simp add: packedKeys_def pack_eq char_to_int_def upt_rec)

lemma keys_one_pair: "packedKeys True [1, 2, 3, 1, 2, 3] = [197121, 197121]"
  by (simp add: packedKeys_def pack_eq char_to_int_def upt_rec)

lemma count_newPoint: "newPoint j k\<lparr>p_count := i\<rparr> = newPoint i k"
  by (simp add: newPoint_def Point_ctor_def Let_def)


lemma narrow_wrap3: "narrow 4294967299 = 3" and narrow_wrap2: "narrow 4294967298 = 2"
  by (simp_all add: narrow_def)

section \<open>The claims\<close>

subsection \<open>Packing, sorting and distinct keys\<close>

text \<open>
  Claim C1: build packs each triplet \<open>(b0, b1, b2)\<close> into the key
  \<open>(b2 << 16) | (b1 << 8) | b0\<close>, sorts the keys in ascending order, and emits points with
  pairwise distinct keys. Where plain \<open>char\<close> is signed the packing loop sign-extends every
  byte from \<open>0x80\<close> on: for the file \<open>FF 00 00\<close> it stores the key \<open>-1\<close>, whose three
  components decode to \<open>(255, 255, 255)\<close>, where the specified key is \<open>255\<close> and decodes to
  \<open>(0, 0, 255)\<close>. Lemmas \<open>pack_unsigned\<close>, \<open>pack_inj\<close>, \<open>emitted_keys_strict\<close> and
  \<open>builtPoints_position\<close> give what does hold: the specified key where \<open>char\<close> is unsigned,
  and injective packing, ascending order and distinct emitted keys on both kinds of platform.
\<close>

theorem signed_char_key:
  "packLoop True [255, 0, 0] 0 (replicate (length [255, 0, 0 :: byte] div 3) 0) = [- 1] \<and>
   spec_key 255 0 0 = 255 \<and>
   x_norm (- 1) = 1 \<and> y_norm (- 1) = 1 \<and> z_norm (- 1) = 1 \<and>
   x_norm (spec_key 255 0 0) = 0 \<and> y_norm (spec_key 255 0 0) = 0 \<and>
   z_norm (spec_key 255 0 0) = 1 \<and>
   loadFile True uninit (Contents [255, 0, 0]) s =
     Inr (1, s\<lparr>points := [newPoint (uninit 0) (- 1)]\<rparr>)"
proof -
  have "packLoop True [255, 0, 0] 0 (replicate (length [255, 0, 0 :: byte] div 3) 0) = [- 1]"
    by (simp add: packLoop.simps pack_eq char_to_int_def)
  moreover have k: "spec_key 255 0 0 = 255" by (simp add: spec_key_sum)
  moreover have "x_norm (- 1) = 1 \<and> y_norm (- 1) = 1 \<and> z_norm (- 1) = 1"
    by (simp add: x_norm_def y_norm_def z_norm_def)
  moreover have "x_norm 255 = 0 \<and> y_norm 255 = 0 \<and> z_norm 255 = 1"
    by (simp add: x_norm_def y_norm_def z_norm_def and_255 drop_bit_eq_div)
  moreover have "loadFile True uninit (Contents [255, 0, 0]) s =
                   Inr (1, s\<lparr>points := [newPoint (uninit 0) (- 1)]\<rparr>)"
    by (simp add: loadFile_Contents builtPoints_def keys_ff_signed)
  ultimately show ?thesis by simp
qed

subsection \<open>Duplicate counts\<close>

text \<open>
  Claim C2: every emitted point's duplicate count starts at 0 and is incremented once per
  further occurrence of its triplet, so that the counts and the number of points add up to
  the number of complete triplets. The constructor never assigns \<open>count\<close>: with stale memory
  holding 7, the file \<open>00 00 00\<close> gives one point with count 7, and the sum is 8, not 1.
  Lemma \<open>builtPoints_count_sum\<close> is the general law: the sum exceeds the number of triplets
  by exactly the indeterminate initial values. Lemma \<open>builtPoints_counted\<close> gives each point's
  count as its initial value plus the further occurrences of its key, and
  \<open>builtPoints_zeroed_sum\<close> the claimed sum on memory that happens to be zero.
\<close>

theorem count_uninitialised:
  "loadFile True stale (Contents [0, 0, 0]) initial_globals =
     Inr (1, initial_globals\<lparr>points := [Point_ctor 7 0 0 0]\<rparr>) \<and>
   sum_list (map p_count [Point_ctor 7 0 0 0]) + int (length [Point_ctor 7 0 0 0]) = 8 \<and>
   int (length [0, 0, 0 :: byte] div 3) = 1"
  by (simp add: loadFile_Contents builtPoints_zero_triplet stale_def Point_ctor_def)

text \<open>
  Claim C3: the file \<open>00 00 00 00 00 00 FF FF FF\<close> gives exactly two points, the one of
  triplet \<open>(0, 0, 0)\<close> at position \<open>(0, 0, 0)\<close> with count 1, the other with count 0. The
  code gives two points and that position, but the counts are the indeterminate initial
  value plus 1 and the indeterminate initial value: 8 and 7 on stale memory holding 7.
\<close>

theorem scenario_counts:
  "loadFile True uninit (Contents [0, 0, 0, 0, 0, 0, 255, 255, 255]) s =
     Inr (3, s\<lparr>points := [newPoint (uninit 0) (- 65793), Point_ctor (uninit 1 + 1) 0 0 0]\<rparr>) \<and>
   loadFile False uninit (Contents [0, 0, 0, 0, 0, 0, 255, 255, 255]) s =
     Inr (3, s\<lparr>points := [Point_ctor (uninit 0 + 1) 0 0 0, newPoint (uninit 1) 16777215]\<rparr>) \<and>
   loadFile True stale (Contents [0, 0, 0, 0, 0, 0, 255, 255, 255]) initial_globals =
     Inr (3, initial_globals\<lparr>points := [newPoint 7 (- 65793), Point_ctor 8 0 0 0]\<rparr>)"
proof -
  have a: "loadFile True u (Contents [0, 0, 0, 0, 0, 0, 255, 255, 255]) t =
     Inr (3, t\<lparr>points := [newPoint (u 0) (- 65793), Point_ctor (u 1 + 1) 0 0 0]\<rparr>)" for u t
    by (simp add: loadFile_Contents builtPoints_def keys_scenario_signed newPoint_zero
        Point_ctor_def)
  have b: "loadFile False uninit (Contents [0, 0, 0, 0, 0, 0, 255, 255, 255]) s =
     Inr (3, s\<lparr>points := [Point_ctor (uninit 0 + 1) 0 0 0, newPoint (uninit 1) 16777215]\<rparr>)"
    by (simp add: loadFile_Contents builtPoints_def keys_scenario_unsigned newPoint_zero
        Point_ctor_def)
  show ?thesis
    unfolding a b by (simp add: stale_def)
qed

subsection \<open>The global point set across a load\<close>

text \<open>
  Claim C4, as stated: a call of \<open>loadFile\<close> that fails leaves the previously built point
  set untouched. It does not: \<open>points.clear()\<close> runs before the file is opened, so a failed
  load of a state holding one point returns 0 and leaves none.
\<close>

theorem loadFile_failure_clears:
  "loadFile True zeroed CannotOpen (initial_globals\<lparr>points := [Point_ctor 0 0 0 0]\<rparr>) =
     Inr (0, initial_globals) \<and>
   points initial_globals \<noteq> points (initial_globals\<lparr>points := [Point_ctor 0 0 0 0]\<rparr>)"
  by (simp add: loadFile_CannotOpen initial_globals_def)

text \<open>
  Claim C4, amended: when the stream cannot be opened, the call returns 0 and leaves the
  point set empty. When the stream opens and its size cannot be read, the call does not
  return: \<open>new char[-1]\<close> throws after the point set has been cleared, and nothing catches
  it. When the file's bytes are read and there are fewer than \<open>2 ^ 31 - 2\<close> of
  them, the call returns the number of complete triplets, no global variable other than the
  point set changes, and the new point set has one point for each distinct key of the file,
  in ascending order of the keys, at the position decoded from the key: the positions depend
  on the file alone, not on the previous set or on the memory the points are allocated in.
\<close>

theorem loadFile_replaces:
  "loadFile char_signed uninit CannotOpen s = Inr (0, s\<lparr>points := []\<rparr>) \<and>
   loadFile char_signed uninit OpenedFails s = Inl Uncaught \<and>
   (length bytes < 2147483646 \<longrightarrow>
      (\<exists>pts. loadFile char_signed uninit (Contents bytes) s =
                Inr (int (length bytes div 3), s\<lparr>points := pts\<rparr>) \<and>
             map position pts =
               map (\<lambda>k. position (newPoint 0 k))
                 (remdups_adj (sort (packedKeys char_signed bytes)))) \<and>
      sorted_wrt (<) (remdups_adj (sort (packedKeys char_signed bytes))) \<and>
      set (remdups_adj (sort (packedKeys char_signed bytes))) =
        set (packedKeys char_signed bytes))"
proof (intro conjI impI)
  show "loadFile char_signed uninit CannotOpen s = Inr (0, s\<lparr>points := []\<rparr>)"
    by (rule loadFile_CannotOpen)
next
  show "loadFile char_signed uninit OpenedFails s = Inl Uncaught"
    by (rule loadFile_OpenedFails)
next
  assume "length bytes < 2147483646"
  then have "loadFile char_signed uninit (Contents bytes) s =
      Inr (int (length bytes div 3), s\<lparr>points := builtPoints char_signed uninit bytes\<rparr>)"
    by (rule loadFile_Contents)
  then show "\<exists>pts. loadFile char_signed uninit (Contents bytes) s =
                Inr (int (length bytes div 3), s\<lparr>points := pts\<rparr>) \<and>
             map position pts =
               map (\<lambda>k. position (newPoint 0 k))
                 (remdups_adj (sort (packedKeys char_signed bytes)))"
    using builtPoints_position [of char_signed uninit bytes] by blast
next
  show "sorted_wrt (<) (remdups_adj (sort (packedKeys char_signed bytes)))"
    by (rule emitted_keys_strict)
next
  show "set (remdups_adj (sort (packedKeys char_signed bytes))) =
        set (packedKeys char_signed bytes)"
    by simp
qed

theorem loadFile_replaces_witness:
  "length [1, 2, 3, 1, 2, 3, 4, 5, 6 :: byte] < 2147483646 \<and>
   (\<exists>pts. loadFile True stale (Contents [1, 2, 3, 1, 2, 3, 4, 5, 6])
             (initial_globals\<lparr>points := [Point_ctor 5 1 1 1]\<rparr>) =
           Inr (3, initial_globals\<lparr>points := pts\<rparr>) \<and>
         map position pts = [position (newPoint 0 197121), position (newPoint 0 394500)])"
proof -
  have h: "length [1, 2, 3, 1, 2, 3, 4, 5, 6 :: byte] < 2147483646" by simp
  from loadFile_replaces [of True stale "initial_globals\<lparr>points := [Point_ctor 5 1 1 1]\<rparr>"
      "[1, 2, 3, 1, 2, 3, 4, 5, 6]"] h
  have "\<exists>pts. loadFile True stale (Contents [1, 2, 3, 1, 2, 3, 4, 5, 6])
             (initial_globals\<lparr>points := [Point_ctor 5 1 1 1]\<rparr>) =
           Inr (3, initial_globals\<lparr>points := pts\<rparr>) \<and>
         map position pts = [position (newPoint 0 197121), position (newPoint 0 394500)]"
    by (simp add: keys_two_triplets)
  with h show ?thesis by blast
qed

subsection \<open>Trailing bytes\<close>

text \<open>
  Claim C7, as stated: for every byte sequence whose length is a multiple of 3, one or
  two further bytes change nothing. Not once the size no longer fits \<open>int length\<close>: a file
  of 4294967298 zero bytes is loaded as 2 bytes and gives no point, and with one more byte it
  is loaded as 3 bytes and gives one.
\<close>

theorem loadFile_truncation_wraps:
  "length (replicate 4294967298 (0 :: byte)) mod 3 = 0 \<and> length [0 :: byte] = 1 \<and>
   loadFile True zeroed (Contents (replicate 4294967298 0)) initial_globals =
     Inr (0, initial_globals) \<and>
   loadFile True zeroed (Contents (replicate 4294967298 0 @ [0])) initial_globals =
     Inr (1, initial_globals\<lparr>points := [Point_ctor 0 0 0 0]\<rparr>)"
proof -
  have r2: "replicate 2 (0 :: byte) = [0, 0]" by (simp add: numeral_2_eq_2)
  have r3: "replicate 3 (0 :: byte) = [0, 0, 0]" by (simp add: numeral_3_eq_3)
  have "take 2 (replicate 4294967298 (0 :: byte)) = replicate 2 0"
    unfolding take_replicate by simp
  then have t2: "take 2 (replicate 4294967298 (0 :: byte)) = [0, 0]"
    using r2 by simp
  have "take 3 (replicate 4294967298 (0 :: byte) @ [0]) = replicate 3 0"
    unfolding take_append take_replicate by simp
  then have t3: "take 3 (replicate 4294967298 (0 :: byte) @ [0]) = [0, 0, 0]"
    using r3 by simp
  have p2: "packLoop True [0, 0 :: byte] 0 [] = []"
    by (simp add: packLoop.simps)
  have p3: "packLoop True [0, 0, 0 :: byte] 0 [0] = [0]"
    by (simp add: packLoop.simps pack_eq char_to_int_def)
  have w0: "walkLoop zeroed [] 0 [] = []"
    by (simp add: walkLoop.simps)
  have w1: "walkLoop zeroed [0] 0 [] = [Point_ctor 0 0 0 0]"
    by (simp add: walkLoop_start newPoint_zero zeroed_def)
  have a: "loadFile True zeroed (Contents (replicate 4294967298 0)) initial_globals =
     Inr (0, initial_globals)"
    by (simp add: loadFile_def narrow_wrap2 t2 r2 p2 w0 initial_globals_def)
  have b: "loadFile True zeroed (Contents (replicate 4294967298 0 @ [0])) initial_globals =
     Inr (1, initial_globals\<lparr>points := [Point_ctor 0 0 0 0]\<rparr>)"
    by (simp add: loadFile_def narrow_wrap3 t3 r3 p3 w1 initial_globals_def)
  show ?thesis using a b by simp
qed

text \<open>
  Claim C7, amended: when the length of \<open>bytes\<close> is a multiple of 3 and, with the one
  or two further bytes, stays below \<open>2 ^ 31 - 2\<close>, the further bytes change neither the
  return value, nor any global variable other than the point set, nor the number, order and
  positions of the points, nor the number of increments of any point's count; on the same
  initial memory the two point sets are equal.
\<close>

theorem loadFile_truncation:
  assumes "length bytes mod 3 = 0" and "length extra = 1 \<or> length extra = 2"
    and "length bytes + length extra < 2147483646"
  shows "\<exists>pts pts'.
           loadFile char_signed uninit (Contents (bytes @ extra)) s =
             Inr (int (length bytes div 3), s\<lparr>points := pts\<rparr>) \<and>
           loadFile char_signed uninit' (Contents bytes) s =
             Inr (int (length bytes div 3), s\<lparr>points := pts'\<rparr>) \<and>
           map position pts = map position pts' \<and>
           length pts = length pts' \<and>
           (\<forall>n < length pts. p_count (pts ! n) - uninit n = p_count (pts' ! n) - uninit' n) \<and>
           (uninit = uninit' \<longrightarrow> pts = pts')"
proof -
  let ?ks = "sort (packedKeys char_signed bytes)"
  let ?pts = "builtPoints char_signed uninit (bytes @ extra)"
  let ?pts' = "builtPoints char_signed uninit' bytes"
  have l: "length extra < 3" using assms(2) by auto
  have d: "(length bytes + length extra) div 3 = length bytes div 3"
    using assms(1) l by presburger
  have k: "packedKeys char_signed (bytes @ extra) = packedKeys char_signed bytes"
    using assms(1) l by (rule packedKeys_append)
  have a: "loadFile char_signed uninit (Contents (bytes @ extra)) s =
             Inr (int (length bytes div 3), s\<lparr>points := ?pts\<rparr>)"
    using assms(3) d by (simp add: loadFile_Contents)
  have b: "loadFile char_signed uninit' (Contents bytes) s =
             Inr (int (length bytes div 3), s\<lparr>points := ?pts'\<rparr>)"
    using assms(3) by (simp add: loadFile_Contents)
  have c: "counted uninit ?ks ?pts"
    using builtPoints_counted [of uninit char_signed "bytes @ extra"] by (simp only: k)
  have c': "counted uninit' ?ks ?pts'" by (rule builtPoints_counted)
  have len: "length ?pts = length ?pts'"
    using c c' by (simp add: counted_def)
  have pos: "map position ?pts = map position ?pts'"
    by (simp add: builtPoints_position k)
  have cnt: "\<forall>n < length ?pts. p_count (?pts ! n) - uninit n = p_count (?pts' ! n) - uninit' n"
    using c c' len by (simp add: counted_def)
  have same: "uninit = uninit' \<longrightarrow> ?pts = ?pts'"
    by (simp add: builtPoints_def k)
  from a b pos len cnt same show ?thesis by blast
qed

theorem loadFile_truncation_witness:
  "length [1, 2, 3, 1, 2, 3 :: byte] mod 3 = 0 \<and>
   (length [4, 5 :: byte] = 1 \<or> length [4, 5 :: byte] = 2) \<and>
   length [1, 2, 3, 1, 2, 3 :: byte] + length [4, 5 :: byte] < 2147483646 \<and>
   loadFile True stale (Contents ([1, 2, 3, 1, 2, 3] @ [4, 5])) initial_globals =
     Inr (2, initial_globals\<lparr>points := [newPoint 8 197121]\<rparr>) \<and>
   loadFile True zeroed (Contents [1, 2, 3, 1, 2, 3]) initial_globals =
     Inr (2, initial_globals\<lparr>points := [newPoint 1 197121]\<rparr>) \<and>
   (\<exists>pts pts'.
      loadFile True stale (Contents ([1, 2, 3, 1, 2, 3] @ [4, 5])) initial_globals =
        Inr (2, initial_globals\<lparr>points := pts\<rparr>) \<and>
      loadFile True zeroed (Contents [1, 2, 3, 1, 2, 3]) initial_globals =
        Inr (2, initial_globals\<lparr>points := pts'\<rparr>) \<and>
      map position pts = map position pts' \<and>
      length pts = length pts' \<and>
      (\<forall>n < length pts. p_count (pts ! n) - stale n = p_count (pts' ! n) - zeroed n))"
proof -
  have h1: "length [1, 2, 3, 1, 2, 3 :: byte] mod 3 = 0" by simp
  have h2: "length [4, 5 :: byte] = 1 \<or> length [4, 5 :: byte] = 2" by simp
  have h3: "length [1, 2, 3, 1, 2, 3 :: byte] + length [4, 5 :: byte] < 2147483646" by simp
  have k2: "packedKeys True ([1, 2, 3, 1, 2, 3] @ [4, 5]) = [197121, 197121]"
    by (simp add: packedKeys_def pack_eq char_to_int_def upt_rec)
  have e1: "loadFile True stale (Contents ([1, 2, 3, 1, 2, 3] @ [4, 5])) initial_globals =
     Inr (2, initial_globals\<lparr>points := [newPoint 8 197121]\<rparr>)"
    using k2 by (simp add: loadFile_Contents builtPoints_def count_newPoint newPoint_fields stale_def)
  have e2: "loadFile True zeroed (Contents [1, 2, 3, 1, 2, 3]) initial_globals =
     Inr (2, initial_globals\<lparr>points := [newPoint 1 197121]\<rparr>)"
    by (simp add: loadFile_Contents builtPoints_def keys_one_pair count_newPoint newPoint_fields zeroed_def)
  from loadFile_truncation [OF h1 h2 h3, of True stale initial_globals zeroed]
  have "\<exists>pts pts'.
      loadFile True stale (Contents ([1, 2, 3, 1, 2, 3] @ [4, 5])) initial_globals =
        Inr (2, initial_globals\<lparr>points := pts\<rparr>) \<and>
      loadFile True zeroed (Contents [1, 2, 3, 1, 2, 3]) initial_globals =
        Inr (2, initial_globals\<lparr>points := pts'\<rparr>) \<and>
      map position pts = map position pts' \<and>
      length pts = length pts' \<and>
      (\<forall>n < length pts. p_count (pts ! n) - stale n = p_count (pts' ! n) - zeroed n)"
    by (simp del: append.simps) blast
  with h1 h2 h3 e1 e2 show ?thesis by blast
qed

subsection \<open>Positions\<close>



text \<open>
  Claim C10: decoding a key takes bits 16-23 as \<open>x_norm\<close>, which drives \<open>xRot\<close>, bits 8-15 as
  \<open>y_norm\<close>, which drives \<open>yRot\<close>, and bits 0-7 as \<open>z_norm\<close>, the radius. For the key of
  the specified packing these are the third byte \<open>b2\<close>, the second byte \<open>b1\<close> and the first
  byte \<open>b0\<close> of the triplet, each divided by 255; so they are for the key that the packing
  loop stores where \<open>char\<close> is unsigned.
\<close>

theorem unpack_components:
  "x_norm (spec_key b0 b1 b2) = real_of_int (uint b2) / 255 \<and>
   y_norm (spec_key b0 b1 b2) = real_of_int (uint b1) / 255 \<and>
   z_norm (spec_key b0 b1 b2) = real_of_int (uint b0) / 255 \<and>
   x_norm (pack False buffer i) = real_of_int (uint (buffer ! (i + 2))) / 255 \<and>
   y_norm (pack False buffer i) = real_of_int (uint (buffer ! (i + 1))) / 255 \<and>
   z_norm (pack False buffer i) = real_of_int (uint (buffer ! i)) / 255 \<and>
   newPoint indeterminate packed =
     Point_ctor indeterminate
       (z_norm packed * sin (x_norm packed * (2 * PI)) * cos (y_norm packed * (2 * PI)))
       (z_norm packed * sin (x_norm packed * (2 * PI)) * sin (y_norm packed * (2 * PI)))
       (z_norm packed * cos (x_norm packed * (2 * PI))) \<and>
   x_norm packed = real_of_int (drop_bit 16 packed AND 255) / 255 \<and>
   y_norm packed = real_of_int (drop_bit 8 packed AND 255) / 255 \<and>
   z_norm packed = real_of_int (packed AND 255) / 255"
proof -
  have d: "x_norm (spec_key c0 c1 c2) = real_of_int (uint c2) / 255 \<and>
           y_norm (spec_key c0 c1 c2) = real_of_int (uint c1) / 255 \<and>
           z_norm (spec_key c0 c1 c2) = real_of_int (uint c0) / 255" for c0 c1 c2
  proof -
    have r: "0 \<le> uint c0" "uint c0 < 256" "0 \<le> uint c1" "uint c1 < 256"
        "0 \<le> uint c2" "uint c2 < 256"
      using uint_byte_range [of c0] uint_byte_range [of c1] uint_byte_range [of c2] by simp_all
    have "x_norm (spec_key c0 c1 c2) = real_of_int (uint c2) / 255"
      unfolding x_norm_def spec_key_sum unpack_sum(1) [OF r] ..
    moreover have "y_norm (spec_key c0 c1 c2) = real_of_int (uint c1) / 255"
      unfolding y_norm_def spec_key_sum unpack_sum(2) [OF r] ..
    moreover have "z_norm (spec_key c0 c1 c2) = real_of_int (uint c0) / 255"
      unfolding z_norm_def spec_key_sum unpack_sum(3) [OF r] ..
    ultimately show ?thesis by simp
  qed
  have n: "newPoint indeterminate packed =
     Point_ctor indeterminate
       (z_norm packed * sin (x_norm packed * (2 * PI)) * cos (y_norm packed * (2 * PI)))
       (z_norm packed * sin (x_norm packed * (2 * PI)) * sin (y_norm packed * (2 * PI)))
       (z_norm packed * cos (x_norm packed * (2 * PI)))"
    by (simp add: newPoint_def Let_def)
  show ?thesis
    unfolding pack_unsigned
    using d [of b0 b1 b2] d [of "buffer ! i" "buffer ! (i + 1)" "buffer ! (i + 2)"] n
    by (simp add: x_norm_def y_norm_def z_norm_def)
qed

subsection \<open>Camera\<close>

text \<open>
  Claim C5: a scroll with the shift key held adds its offset to \<open>zoomTarget\<close>, a scroll
  without it adds a 25th of the offset, and the result is clamped from below at \<open>0.1\<close>; from
  \<open>zoomTarget = 1\<close> a scroll of 25 without shift adds exactly 1, and no sequence of scroll events
  takes \<open>zoomTarget\<close> below \<open>0.1\<close>.
\<close>

theorem scroll_zoom_floor:
  assumes "zoomTarget s = 1"
  shows "zoomTarget (scrollCallback GLFW_PRESS xOffset yOffset t) =
           max (zoomTarget t + yOffset) (1 / 10) \<and>
         (shiftKey \<noteq> GLFW_PRESS \<longrightarrow>
            zoomTarget (scrollCallback shiftKey xOffset yOffset t) =
              max (zoomTarget t + yOffset / 25) (1 / 10)) \<and>
         (shiftKey \<noteq> GLFW_PRESS \<longrightarrow>
            zoomTarget (scrollCallback shiftKey xOffset 25 s) = zoomTarget s + 1) \<and>
         1 / 10 \<le> zoomTarget (scrollAll es s) \<and>
         1 / 10 \<le> zoomTarget (scrollCallback shiftKey xOffset yOffset t)"
  using assms scrollAll_floor [of s es]
  by (simp add: scrollCallback_zoomTarget)

theorem scroll_zoom_floor_witness:
  "zoomTarget initial_globals = 1 \<and> GLFW_RELEASE \<noteq> GLFW_PRESS \<and>
   zoomTarget (scrollCallback GLFW_RELEASE 0 25 initial_globals) = 2 \<and>
   1 / 10 \<le> zoomTarget (scrollAll [(GLFW_RELEASE, - 100), (GLFW_PRESS, 1 / 2)] initial_globals) \<and>
   zoomTarget (scrollAll [(GLFW_RELEASE, - 100), (GLFW_PRESS, 1 / 2)] initial_globals) = 3 / 5"
proof -
  have h: "zoomTarget initial_globals = 1" by (simp add: initial_globals_def)
  have r: "GLFW_RELEASE \<noteq> GLFW_PRESS" by (simp add: GLFW_RELEASE_def GLFW_PRESS_def)
  have v: "zoomTarget (scrollAll [(GLFW_RELEASE, - 100), (GLFW_PRESS, 1 / 2)] initial_globals) = 3 / 5"
    by (simp add: scrollCallback_def initial_globals_def GLFW_RELEASE_def GLFW_PRESS_def)
  show ?thesis
    using scroll_zoom_floor [OF h, of 0 0 initial_globals GLFW_RELEASE
        "[(GLFW_RELEASE, - 100), (GLFW_PRESS, 1 / 2)]"] h r v
    by simp
qed




text \<open>
  Claim C9: the button is ignored. A press of any button leads to \<open>Dragging\<close>, a release of
  any button leads to \<open>Idle\<close>, also after a press of another button, and two calls that
  differ only in the button and the modifiers have the same effect.
\<close>

theorem mouse_button_any:
  "dragState (mouseButtonCallback button GLFW_PRESS m s) = Dragging \<and>
   dragState (mouseButtonCallback button GLFW_RELEASE m s) = Idle \<and>
   dragState (mouseButtonCallback button' GLFW_RELEASE m'
                (mouseButtonCallback button GLFW_PRESS m s)) = Idle \<and>
   mouseButtonCallback button action m s = mouseButtonCallback button' action m' s"
  by (simp add: mouseButtonCallback_def dragState_def GLFW_PRESS_def GLFW_RELEASE_def)

end
